theory Spec2Isabelle
  imports Main "HOL-Library.Multiset" "HOL-Library.Sublist"
begin

section \<open>Go runtime and standard library, as far as subly.go uses them\<close>

text \<open>
  A Go \<open>string\<close> is a sequence of bytes, here a \<open>char list\<close>. A Go \<open>int\<close> is a
  machine integer; every arithmetic expression of subly.go (\<open>ix+1\<close>,
  \<open>len(parts) - take\<close>, \<open>len(parts) - drop\<close>) is evaluated behind a guard that
  keeps it between \<open>0\<close> and a length, so no operation can wrap and \<open>int\<close>
  gives the same values. A run-time panic is a value of type \<open>panic\<close>.
\<close>

datatype panic = SliceOutOfRange | NilDereference | InvalidValue

text \<open>\<open>s[lo:]\<close> and \<open>s[:hi]\<close>: Go panics when the bound is outside \<open>0..len(s)\<close>.\<close>

definition slice_from :: "'a list \<Rightarrow> int \<Rightarrow> panic + 'a list" where
  "slice_from xs lo =
     (if lo < 0 \<or> int (length xs) < lo then Inl SliceOutOfRange
      else Inr (drop (nat lo) xs))"

definition slice_to :: "'a list \<Rightarrow> int \<Rightarrow> panic + 'a list" where
  "slice_to xs hi =
     (if hi < 0 \<or> int (length xs) < hi then Inl SliceOutOfRange
      else Inr (take (nat hi) xs))"

text \<open>\<open>strings.LastIndex(s, sep)\<close> for a one-byte \<open>sep\<close>: the index of the last
  occurrence, or \<open>-1\<close>.\<close>

fun LastIndex :: "string \<Rightarrow> char \<Rightarrow> int" where
  "LastIndex [] sep = - 1"
| "LastIndex (c # cs) sep =
     (let r = LastIndex cs sep
      in if 0 \<le> r then r + 1 else if c = sep then 0 else - 1)"

text \<open>\<open>strings.NewReplacer(old1, new1, ...).Replace(s)\<close> where every \<open>old\<close> is one
  byte: each byte that is an \<open>old\<close> is replaced by its \<open>new\<close> (the first pair wins),
  every other byte is kept.\<close>

definition Replace :: "(char \<times> string) list \<Rightarrow> string \<Rightarrow> string" where
  "Replace oldnew s =
     concat (map (\<lambda>c. case map_of oldnew c of None \<Rightarrow> [c] | Some new \<Rightarrow> new) s)"

text \<open>\<open>strings.Split(s, sep)\<close> for a one-byte \<open>sep\<close>: the pieces between the
  separators; one piece (the whole string, also when it is empty) when there is none.\<close>

fun Split :: "string \<Rightarrow> char \<Rightarrow> string list" where
  "Split [] sep = [[]]"
| "Split (c # cs) sep =
     (if c = sep then [] # Split cs sep
      else (c # hd (Split cs sep)) # tl (Split cs sep))"

text \<open>\<open>strings.Join(elems, sep)\<close>.\<close>

fun Join :: "string list \<Rightarrow> string \<Rightarrow> string" where
  "Join [] sep = []"
| "Join [p] sep = p"
| "Join (p # q # ps) sep = p @ sep @ Join (q # ps) sep"

text \<open>\<open>strings.HasSuffix\<close> and \<open>strings.TrimSuffix\<close>.\<close>

definition HasSuffix :: "string \<Rightarrow> string \<Rightarrow> bool" where
  "HasSuffix s sfx =
     (length sfx \<le> length s \<and> drop (length s - length sfx) s = sfx)"

definition TrimSuffix :: "string \<Rightarrow> string \<Rightarrow> string" where
  "TrimSuffix s sfx =
     (if HasSuffix s sfx then take (length s - length sfx) s else s)"

text \<open>
  \<open>strings.ToLower\<close>: a string of ASCII bytes only has each of \<open>'A'..'Z'\<close> moved
  by \<open>'a' - 'A'\<close>; any other string goes through \<open>strings.Map(unicode.ToLower, s)\<close>,
  whose tables are not part of this repository: that mapping is the parameter
  \<open>unicodeLower\<close>.
\<close>

definition isASCII :: "string \<Rightarrow> bool" where
  "isASCII s = list_all (\<lambda>c. (of_char c :: nat) < 128) s"

definition isUpper :: "char \<Rightarrow> bool" where
  "isUpper c = (65 \<le> (of_char c :: nat) \<and> (of_char c :: nat) \<le> 90)"

definition lowerByte :: "char \<Rightarrow> char" where
  "lowerByte c = (if isUpper c then char_of ((of_char c :: nat) + 32) else c)"

definition ToLower :: "(string \<Rightarrow> string) \<Rightarrow> string \<Rightarrow> string" where
  "ToLower unicodeLower s = (if isASCII s then map lowerByte s else unicodeLower s)"

section \<open>polishKindName\<close>

definition polishKindName :: "string \<Rightarrow> int \<Rightarrow> int \<Rightarrow> panic + string" where
  "polishKindName name takeN dropN =
     (let ix = LastIndex name CHR ''/''
      in case (if 0 < ix \<and> ix + 1 < int (length name)
               then slice_from name (ix + 1) else Inr name) of
           Inl p \<Rightarrow> Inl p
         | Inr name1 \<Rightarrow>
             (let name2 = Replace [(CHR ''('', []), (CHR '')'', []), (CHR ''*'', [])] name1;
                  parts = Split name2 CHR ''.'';
                  take1 = (if takeN < 0 then 0 else takeN)
              in case (if take1 < int (length parts)
                       then slice_from parts (int (length parts) - take1)
                       else Inr parts) of
                   Inl p \<Rightarrow> Inl p
                 | Inr parts1 \<Rightarrow>
                     (case (if 0 < dropN \<and> dropN < int (length parts1)
                            then slice_to parts1 (int (length parts1) - dropN)
                            else Inr parts1) of
                        Inl p \<Rightarrow> Inl p
                      | Inr parts2 \<Rightarrow> Inr (Join parts2 ''.''))))"

subsection \<open>The reference algorithm of the specification\<close>

text \<open>
  The specification's algorithm, step by step: strip everything up to and including
  the last \<open>/\<close>; remove the decoration characters; split on \<open>.\<close>; keep the last
  \<open>takeSegments\<close> parts (negative counts as 0, a count of at least the number of parts
  keeps all); drop the last \<open>dropSegments\<close> of the parts kept, only when
  \<open>dropSegments\<close> lies strictly between 0 and their number; rejoin with \<open>.\<close>.
\<close>

definition strip_namespace :: "string \<Rightarrow> string" where
  "strip_namespace s = rev (takeWhile (\<lambda>c. c \<noteq> CHR ''/'') (rev s))"

definition remove_decoration :: "string \<Rightarrow> string" where
  "remove_decoration s = filter (\<lambda>c. c \<notin> {CHR ''('', CHR '')'', CHR ''*''}) s"

definition keep_last :: "int \<Rightarrow> 'a list \<Rightarrow> 'a list" where
  "keep_last t ps =
     (let t0 = (if t < 0 then 0 else nat t)
      in if length ps \<le> t0 then ps else drop (length ps - t0) ps)"

definition drop_last :: "int \<Rightarrow> 'a list \<Rightarrow> 'a list" where
  "drop_last d ps =
     (if 0 < d \<and> d < int (length ps) then take (length ps - nat d) ps else ps)"

definition resolveTypeLabel_from :: "string \<Rightarrow> int \<Rightarrow> int \<Rightarrow> string" where
  "resolveTypeLabel_from stripped takeSegments dropSegments =
     Join (drop_last dropSegments
            (keep_last takeSegments (Split (remove_decoration stripped) CHR ''.''))) ''.''"

definition resolveTypeLabel_spec :: "string \<Rightarrow> int \<Rightarrow> int \<Rightarrow> string" where
  "resolveTypeLabel_spec qualifiedTypeName takeSegments dropSegments =
     resolveTypeLabel_from (strip_namespace qualifiedTypeName) takeSegments dropSegments"

text \<open>The inputs whose last \<open>/\<close> is their first or their final character.\<close>

definition slash_at_edge :: "string \<Rightarrow> bool" where
  "slash_at_edge s =
     (s \<noteq> [] \<and> (last s = CHR ''/'' \<or> (hd s = CHR ''/'' \<and> CHR ''/'' \<notin> set (tl s))))"

text \<open>The text after the last \<open>.\<close> of a string (the whole string when it has none).\<close>

definition final_segment :: "string \<Rightarrow> string" where
  "final_segment s = rev (takeWhile (\<lambda>c. c \<noteq> CHR ''.'') (rev s))"

text \<open>A string without any of the bytes \<open>'A'..'Z'\<close>.\<close>

definition lower_case :: "string \<Rightarrow> bool" where
  "lower_case s = list_all (\<lambda>c. \<not> isUpper c) s"

section \<open>getMessages\<close>

text \<open>
  What \<open>getMessages\<close> reads of its argument through package \<open>reflect\<close>:
  \<open>t.String()\<close>, and the method set of the dynamic type as \<open>t.Method(i)\<close> lists
  it, each name with the method value bound to the receiver. \<open>'cb\<close> is the type of
  these callbacks. A nil interface value is \<open>None\<close>: \<open>reflect.TypeOf\<close> returns nil
  for it and \<open>t.NumMethod()\<close> panics.
\<close>

record 'cb service =
  typeString :: string
  methods :: "(string \<times> 'cb) list"

record 'cb serviceMessage =
  queue :: bool
  serviceName :: string
  messageName :: string
  message :: 'cb

text \<open>\<open>val.MethodByName(name)\<close>: the method of that name, or the zero Value, on which
  \<open>Interface()\<close> panics.\<close>

definition MethodByName :: "'cb service \<Rightarrow> string \<Rightarrow> 'cb option" where
  "MethodByName svc name = map_of (methods svc) name"

text \<open>The body of the loop over the methods, for the method named \<open>mName\<close>;
  \<open>Inr None\<close> is \<open>continue\<close>.\<close>

definition getMessages_body ::
  "(string \<Rightarrow> string) \<Rightarrow> 'cb service \<Rightarrow> string \<Rightarrow> panic + 'cb serviceMessage option" where
  "getMessages_body unicodeLower svc mName =
     (let isMessage = HasSuffix mName ''Message'';
          isMessageQueue = HasSuffix mName ''MessageQueue''
      in if \<not> isMessage \<and> \<not> isMessageQueue then Inr None
         else
           (let messageName1 = TrimSuffix mName ''Queue'';
                messageName2 = TrimSuffix messageName1 ''Message'';
                messageName3 = ToLower unicodeLower messageName2
            in case MethodByName svc mName of
                 None \<Rightarrow> Inl InvalidValue
               | Some cb \<Rightarrow>
                   (case polishKindName (typeString svc) 1 0 of
                      Inl p \<Rightarrow> Inl p
                    | Inr kind \<Rightarrow>
                        Inr (Some \<lparr>queue = isMessageQueue,
                                   serviceName = ToLower unicodeLower kind,
                                   messageName = messageName3,
                                   message = cb\<rparr>))))"

fun getMessages_loop ::
  "(string \<Rightarrow> string) \<Rightarrow> 'cb service \<Rightarrow> (string \<times> 'cb) list \<Rightarrow> 'cb serviceMessage list
     \<Rightarrow> panic + 'cb serviceMessage list" where
  "getMessages_loop unicodeLower svc [] res = Inr res"
| "getMessages_loop unicodeLower svc (m # ms) res =
     (case getMessages_body unicodeLower svc (fst m) of
        Inl p \<Rightarrow> Inl p
      | Inr None \<Rightarrow> getMessages_loop unicodeLower svc ms res
      | Inr (Some sm) \<Rightarrow> getMessages_loop unicodeLower svc ms (res @ [sm]))"

definition getMessages ::
  "(string \<Rightarrow> string) \<Rightarrow> 'cb service option \<Rightarrow> panic + 'cb serviceMessage list" where
  "getMessages unicodeLower service =
     (case service of
        None \<Rightarrow> Inl NilDereference
      | Some svc \<Rightarrow> getMessages_loop unicodeLower svc (methods svc) [])"

section \<open>The transport, sub and qsub\<close>

text \<open>
  The NATS connection is outside the repository. Of a subscribe call the model keeps
  what was asked (\<open>call\<close>), and takes the connection's answer, an error \<open>'e\<close> or a
  subscription handle \<open>'h\<close>, from a function of the calls made so far and the call
  itself; likewise for \<open>Unsubscribe\<close>. The state records the calls made, the errors
  printed by \<open>log.Println\<close>, the subscriptions whose goroutine is waiting on
  \<open>ctx.Done()\<close>, whether the context has been cancelled, and the subscriptions on
  which \<open>Unsubscribe\<close> has been called.
\<close>

datatype 'cb call = PlainSubscribe string 'cb | QueueSubscribe string string 'cb

record ('cb, 'h, 'e) EncodedConn =
  subscribe_result :: "'cb call list \<Rightarrow> 'cb call \<Rightarrow> 'e + 'h"
  unsubscribe_result :: "'h list \<Rightarrow> 'h \<Rightarrow> 'e option"

record ('cb, 'h, 'e) world =
  calls :: "'cb call list"
  logged :: "'e list"
  watchers :: "'h list"
  cancelled :: bool
  unsubscribed :: "'h list"

definition initial_world :: "('cb, 'h, 'e) world" where
  "initial_world =
     \<lparr>calls = [], logged = [], watchers = [], cancelled = False, unsubscribed = []\<rparr>"

definition sub ::
  "('cb, 'h, 'e) EncodedConn \<Rightarrow> string \<Rightarrow> 'cb \<Rightarrow> ('cb, 'h, 'e) world \<Rightarrow> ('cb, 'h, 'e) world" where
  "sub econn subject x w =
     (case subscribe_result econn (calls w) (PlainSubscribe subject x) of
        Inl err \<Rightarrow>
          w\<lparr>calls := calls w @ [PlainSubscribe subject x], logged := logged w @ [err]\<rparr>
      | Inr s \<Rightarrow>
          w\<lparr>calls := calls w @ [PlainSubscribe subject x], watchers := watchers w @ [s]\<rparr>)"

definition qsub ::
  "('cb, 'h, 'e) EncodedConn \<Rightarrow> string \<Rightarrow> string \<Rightarrow> 'cb \<Rightarrow> ('cb, 'h, 'e) world
     \<Rightarrow> ('cb, 'h, 'e) world" where
  "qsub econn queueName subject x w =
     (case subscribe_result econn (calls w) (QueueSubscribe subject queueName x) of
        Inl err \<Rightarrow>
          w\<lparr>calls := calls w @ [QueueSubscribe subject queueName x],
            logged := logged w @ [err]\<rparr>
      | Inr s \<Rightarrow>
          w\<lparr>calls := calls w @ [QueueSubscribe subject queueName x],
            watchers := watchers w @ [s]\<rparr>)"

section \<open>Subscribe and SubscribeFunc\<close>

text \<open>The body of the loop of \<open>Subscribe\<close>; \<open>fmt.Sprintf\<close> with two \<open>%s\<close> verbs
  concatenates.\<close>

definition Subscribe_body ::
  "('cb, 'h, 'e) EncodedConn \<Rightarrow> 'cb serviceMessage \<Rightarrow> ('cb, 'h, 'e) world
     \<Rightarrow> ('cb, 'h, 'e) world" where
  "Subscribe_body econn v w =
     (let subject = serviceName v @ ''.'' @ messageName v
      in if queue v
         then (let queueName = serviceName v @ ''_'' @ messageName v
               in qsub econn queueName subject (message v) w)
         else sub econn subject (message v) w)"

definition Subscribe ::
  "(string \<Rightarrow> string) \<Rightarrow> ('cb, 'h, 'e) EncodedConn \<Rightarrow> 'cb service option
     \<Rightarrow> ('cb, 'h, 'e) world \<Rightarrow> panic + ('cb, 'h, 'e) world" where
  "Subscribe unicodeLower econn service w =
     (case getMessages unicodeLower service of
        Inl p \<Rightarrow> Inl p
      | Inr messages \<Rightarrow> Inr (foldl (\<lambda>w' v. Subscribe_body econn v w') w messages))"

text \<open>
  \<open>SubscribeFunc\<close>: \<open>messages\<close> lists the entries of the Go map in the order in which
  \<open>range\<close> visits them (any order), \<open>queue_args\<close> is the variadic parameter \<open>queue\<close>.
\<close>

definition SubscribeFunc ::
  "('cb, 'h, 'e) EncodedConn \<Rightarrow> (string \<times> 'cb) list \<Rightarrow> string list
     \<Rightarrow> ('cb, 'h, 'e) world \<Rightarrow> ('cb, 'h, 'e) world" where
  "SubscribeFunc econn messages queue_args w =
     (let queueName = (if 0 < length queue_args then queue_args ! 0 else [])
      in foldl (\<lambda>w' (sb, m).
                  let subject = sb
                  in if queueName \<noteq> [] then qsub econn queueName subject m w'
                     else sub econn subject m w')
           w messages)"

section \<open>The goroutines waiting for cancellation\<close>

text \<open>
  What can happen to the state, one event at a time: the caller's thread runs one \<open>sub\<close>
  or \<open>qsub\<close>; somebody cancels the context; or the goroutine of the \<open>i\<close>-th waiting
  subscription, which can go on only once the context is cancelled, calls
  \<open>Unsubscribe\<close>, prints the error if there is one, and ends. An event that cannot
  happen in a state gives \<open>None\<close>.
\<close>

datatype 'cb event =
  CallSub string 'cb | CallQsub string string 'cb | Cancel | Fire nat

definition fire ::
  "('cb, 'h, 'e) EncodedConn \<Rightarrow> nat \<Rightarrow> ('cb, 'h, 'e) world \<Rightarrow> ('cb, 'h, 'e) world option" where
  "fire econn i w =
     (if cancelled w \<and> i < length (watchers w)
      then (let s = watchers w ! i
            in Some (w\<lparr>watchers := take i (watchers w) @ drop (Suc i) (watchers w),
                       unsubscribed := unsubscribed w @ [s],
                       logged := (case unsubscribe_result econn (unsubscribed w) s of
                                    None \<Rightarrow> logged w
                                  | Some err \<Rightarrow> logged w @ [err])\<rparr>))
      else None)"

fun step ::
  "('cb, 'h, 'e) EncodedConn \<Rightarrow> 'cb event \<Rightarrow> ('cb, 'h, 'e) world \<Rightarrow> ('cb, 'h, 'e) world option" where
  "step econn (CallSub subject x) w = Some (sub econn subject x w)"
| "step econn (CallQsub queueName subject x) w = Some (qsub econn queueName subject x w)"
| "step econn Cancel w = Some (w\<lparr>cancelled := True\<rparr>)"
| "step econn (Fire i) w = fire econn i w"

fun run ::
  "('cb, 'h, 'e) EncodedConn \<Rightarrow> 'cb event list \<Rightarrow> ('cb, 'h, 'e) world
     \<Rightarrow> ('cb, 'h, 'e) world option" where
  "run econn [] w = Some w"
| "run econn (ev # evs) w =
     (case step econn ev w of None \<Rightarrow> None | Some w' \<Rightarrow> run econn evs w')"

section \<open>Notions used to state the properties\<close>

text \<open>The registration that the specification prescribes for a descriptor.\<close>

definition registration :: "'cb serviceMessage \<Rightarrow> 'cb call" where
  "registration v =
     (if queue v
      then QueueSubscribe (serviceName v @ ''.'' @ messageName v)
             (serviceName v @ ''_'' @ messageName v) (message v)
      else PlainSubscribe (serviceName v @ ''.'' @ messageName v) (message v))"

text \<open>The connection's answers to a sequence of calls made after the calls \<open>hist\<close>;
  the handles it granted and the errors it returned.\<close>

fun outcomes ::
  "('cb, 'h, 'e) EncodedConn \<Rightarrow> 'cb call list \<Rightarrow> 'cb call list \<Rightarrow> ('e + 'h) list" where
  "outcomes econn hist [] = []"
| "outcomes econn hist (c # cs) =
     subscribe_result econn hist c # outcomes econn (hist @ [c]) cs"

fun granted :: "('e + 'h) list \<Rightarrow> 'h list" where
  "granted [] = []"
| "granted (Inl e # rs) = granted rs"
| "granted (Inr h # rs) = h # granted rs"

fun refused :: "('e + 'h) list \<Rightarrow> 'e list" where
  "refused [] = []"
| "refused (Inl e # rs) = e # refused rs"
| "refused (Inr h # rs) = refused rs"

text \<open>One subscribe call and what \<open>sub\<close> and \<open>qsub\<close> do with its answer.\<close>

definition attempt ::
  "('cb, 'h, 'e) EncodedConn \<Rightarrow> 'cb call \<Rightarrow> ('cb, 'h, 'e) world \<Rightarrow> ('cb, 'h, 'e) world" where
  "attempt econn c w =
     (case subscribe_result econn (calls w) c of
        Inl err \<Rightarrow> w\<lparr>calls := calls w @ [c], logged := logged w @ [err]\<rparr>
      | Inr s \<Rightarrow> w\<lparr>calls := calls w @ [c], watchers := watchers w @ [s]\<rparr>)"

section \<open>Properties of the library functions\<close>

lemma LastIndex_bounds: "- 1 \<le> LastIndex s c \<and> LastIndex s c < int (length s)"
  by (induction s) (auto simp: Let_def)

lemma LastIndex_neg: "LastIndex s c < 0 \<longleftrightarrow> c \<notin> set s"
  by (induction s) (auto simp: Let_def)

lemma LastIndex_absent: "LastIndex s c = - 1 \<longleftrightarrow> c \<notin> set s"
  using LastIndex_bounds [of s c] LastIndex_neg [of s c] by linarith

lemma LastIndex_first: "LastIndex s c = 0 \<longleftrightarrow> s \<noteq> [] \<and> hd s = c \<and> c \<notin> set (tl s)"
proof (cases s)
  case Nil
  then show ?thesis by simp
next
  case (Cons x xs)
  show ?thesis
    using LastIndex_bounds [of xs c] LastIndex_absent [of xs c]
    by (auto simp: Cons Let_def)
qed

lemma LastIndex_final:
  "s \<noteq> [] \<Longrightarrow> LastIndex s c + 1 = int (length s) \<longleftrightarrow> last s = c"
proof (induction s)
  case Nil
  then show ?case by simp
next
  case (Cons x xs)
  show ?case
  proof (cases xs)
    case Nil
    then show ?thesis by (simp add: Let_def)
  next
    case (Cons y ys)
    then have "xs \<noteq> []" by simp
    with Cons.IH have ih: "LastIndex xs c + 1 = int (length xs) \<longleftrightarrow> last xs = c" by simp
    have len: "1 \<le> int (length xs)" using \<open>xs \<noteq> []\<close> by (cases xs) simp_all
    show ?thesis
    proof (cases "0 \<le> LastIndex xs c")
      case True
      then show ?thesis using ih \<open>xs \<noteq> []\<close> by (simp add: Let_def add.commute)
    next
      case False
      then have "c \<notin> set xs" using LastIndex_neg [of xs c] by simp
      then have "last xs \<noteq> c" using \<open>xs \<noteq> []\<close> last_in_set by blast
      moreover have "LastIndex (x # xs) c + 1 \<le> 1" using False by (simp add: Let_def)
      ultimately show ?thesis using len \<open>xs \<noteq> []\<close> by simp
    qed
  qed
qed


lemma strip_namespace_Cons:
  "strip_namespace (x # xs) =
     (if CHR ''/'' \<in> set xs then strip_namespace xs
      else if x = CHR ''/'' then xs else x # xs)"
  by (auto simp: strip_namespace_def takeWhile_append takeWhile_eq_all_conv [THEN iffD2])

lemma drop_LastIndex:
  "CHR ''/'' \<in> set s \<Longrightarrow> drop (nat (LastIndex s CHR ''/'' + 1)) s = strip_namespace s"
proof (induction s)
  case Nil
  then show ?case by simp
next
  case (Cons x xs)
  show ?case
  proof (cases "CHR ''/'' \<in> set xs")
    case True
    then have "0 \<le> LastIndex xs CHR ''/''"
      using LastIndex_neg [of xs "CHR ''/''"] by simp
    moreover have "nat (LastIndex xs CHR ''/'' + 1 + 1) = Suc (nat (LastIndex xs CHR ''/'' + 1))"
      using \<open>0 \<le> LastIndex xs CHR ''/''\<close> by simp
    ultimately show ?thesis
      using Cons.IH True by (simp add: Let_def strip_namespace_Cons)
  next
    case False
    then have "LastIndex xs CHR ''/'' = - 1" by (simp add: LastIndex_absent)
    with False Cons.prems show ?thesis
      by (simp add: Let_def strip_namespace_Cons)
  qed
qed

lemma strip_namespace_absent:
  assumes "CHR ''/'' \<notin> set s"
  shows "strip_namespace s = s"
proof -
  have "takeWhile (\<lambda>c. c \<noteq> CHR ''/'') (rev s) = rev s"
    using assms by (auto simp: takeWhile_eq_all_conv)
  then show ?thesis unfolding strip_namespace_def by (simp only: rev_rev_ident)
qed

lemma Replace_decoration:
  "Replace [(CHR ''('', []), (CHR '')'', []), (CHR ''*'', [])] s = remove_decoration s"
  by (induction s) (simp_all add: Replace_def remove_decoration_def)

lemma Split_nonempty: "Split s c \<noteq> []"
  by (induction s) auto

lemma take_phase:
  "(if (if t < 0 then 0 else t) < int (length ps)
    then slice_from ps (int (length ps) - (if t < 0 then 0 else t)) else Inr ps)
   = Inr (keep_last t ps)"
  by (auto simp: slice_from_def keep_last_def Let_def nat_diff_distrib' intro: arg_cong [where f = "\<lambda>n. drop n ps"])

lemma drop_phase:
  "(if 0 < d \<and> d < int (length ps) then slice_to ps (int (length ps) - d) else Inr ps)
   = Inr (drop_last d ps)"
  by (auto simp: slice_to_def drop_last_def nat_diff_distrib')

lemma polish_tail:
  "polishKindName name t d =
     (let ix = LastIndex name CHR ''/''
      in if 0 < ix \<and> ix + 1 < int (length name)
         then Inr (resolveTypeLabel_from (drop (nat (ix + 1)) name) t d)
         else Inr (resolveTypeLabel_from name t d))"
  unfolding polishKindName_def Let_def take_phase drop_phase Replace_decoration
  by (simp add: slice_from_def resolveTypeLabel_from_def)

text \<open>
  Claim C1, as amended. \<open>polishKindName\<close> never panics and always returns a string.
  When the input has no \<open>/\<close>, or its last \<open>/\<close> is neither its first nor its final
  character, the result is that of the reference algorithm (the segment count of the
  drop step being the number of parts left by the take step). When the last \<open>/\<close> is
  the first or the final character, nothing is stripped: the result is that of the
  reference algorithm's steps from the removal of the decorations on, applied to the
  whole input, \<open>/\<close> included.
\<close>

theorem polishKindName_guarded_refinement:
  "polishKindName name t d =
     Inr (if slash_at_edge name then resolveTypeLabel_from name t d
          else resolveTypeLabel_spec name t d)"
proof (cases "CHR ''/'' \<in> set name")
  case False
  then have "LastIndex name CHR ''/'' = - 1" by (simp add: LastIndex_absent)
  moreover have "\<not> slash_at_edge name"
    using False by (auto simp: slash_at_edge_def dest: last_in_set hd_in_set)
  ultimately show ?thesis
    using False by (simp add: polish_tail resolveTypeLabel_spec_def strip_namespace_absent)
next
  case True
  then have ne: "name \<noteq> []" by auto
  have ix0: "0 \<le> LastIndex name CHR ''/''"
    using True LastIndex_neg [of name "CHR ''/''"] by simp
  have ub: "LastIndex name CHR ''/'' + 1 \<le> int (length name)"
    using LastIndex_bounds [of name "CHR ''/''"] by simp
  have edge: "slash_at_edge name \<longleftrightarrow>
      \<not> (0 < LastIndex name CHR ''/'' \<and> LastIndex name CHR ''/'' + 1 < int (length name))"
    using ne ix0 ub LastIndex_first [of name "CHR ''/''"] LastIndex_final [OF ne, of "CHR ''/''"]
    by (auto simp: slash_at_edge_def)
  show ?thesis
    using edge drop_LastIndex [OF True]
    by (simp add: polish_tail Let_def resolveTypeLabel_spec_def)
qed

text \<open>
  Claim C1 as stated fails where the last \<open>/\<close> is the first or the final character:
  on \<open>"/a"\<close> the code returns \<open>"/a"\<close> and the reference algorithm \<open>"a"\<close>; on \<open>"a/"\<close>
  the code returns \<open>"a/"\<close> and the reference algorithm the empty string.
\<close>

theorem polishKindName_slash_edge_counterexample:
  "polishKindName ''/a'' 1 0 = Inr ''/a'' \<and> resolveTypeLabel_spec ''/a'' 1 0 = ''a''
   \<and> polishKindName ''/a'' 1 0 \<noteq> Inr (resolveTypeLabel_spec ''/a'' 1 0)
   \<and> polishKindName ''a/'' 1 0 = Inr ''a/'' \<and> resolveTypeLabel_spec ''a/'' 1 0 = []
   \<and> polishKindName ''a/'' 1 0 \<noteq> Inr (resolveTypeLabel_spec ''a/'' 1 0)"
  by (simp add: polishKindName_def slice_from_def slice_to_def Replace_def
      resolveTypeLabel_spec_def resolveTypeLabel_from_def strip_namespace_def
      remove_decoration_def keep_last_def drop_last_def)

text \<open>The refinement at \<open>"pkg/sub.(*SomeService)"\<close> and at \<open>"/sub.(*SomeService)"\<close>,
  with two segments taken and one dropped.\<close>

theorem polishKindName_guarded_refinement_witness:
  "\<not> slash_at_edge ''pkg/sub.(*SomeService)''
   \<and> polishKindName ''pkg/sub.(*SomeService)'' 2 1 = Inr ''sub''
   \<and> slash_at_edge ''/sub.(*SomeService)''
   \<and> polishKindName ''/sub.(*SomeService)'' 2 1 = Inr ''/sub''"
  using polishKindName_guarded_refinement [of "''pkg/sub.(*SomeService)''" 2 1]
    polishKindName_guarded_refinement [of "''/sub.(*SomeService)''" 2 1]
  by (simp add: slash_at_edge_def resolveTypeLabel_spec_def resolveTypeLabel_from_def
      strip_namespace_def remove_decoration_def keep_last_def drop_last_def)

lemma LastIndex_append:
  "c \<notin> set ys \<Longrightarrow> LastIndex (xs @ c # ys) c = int (length xs)"
proof (induction xs)
  case Nil
  then have "LastIndex ys c = - 1" by (simp add: LastIndex_absent)
  then show ?case by (simp add: Let_def)
next
  case (Cons x xs)
  then show ?case by (simp add: Let_def)
qed

lemma Split_absent: "c \<notin> set s \<Longrightarrow> Split s c = [s]"
  by (induction s) auto

lemma final_segment_Cons:
  "final_segment (x # xs) =
     (if CHR ''.'' \<in> set xs then final_segment xs
      else if x = CHR ''.'' then xs else x # xs)"
  by (auto simp: final_segment_def takeWhile_append takeWhile_eq_all_conv [THEN iffD2])

lemma final_segment_absent:
  assumes "CHR ''.'' \<notin> set s"
  shows "final_segment s = s"
proof -
  have "takeWhile (\<lambda>c. c \<noteq> CHR ''.'') (rev s) = rev s"
    using assms by (auto simp: takeWhile_eq_all_conv)
  then show ?thesis unfolding final_segment_def by (simp only: rev_rev_ident)
qed

lemma Split_tl_Nil: "tl (Split s c) = [] \<longleftrightarrow> c \<notin> set s"
  using Split_nonempty [of _ c]
  by (induction s) (auto simp: Split_absent)

lemma last_Split: "last (Split s CHR ''.'') = final_segment s"
proof (induction s)
  case Nil
  then show ?case by (simp add: final_segment_def)
next
  case (Cons x xs)
  show ?case
  proof (cases "CHR ''.'' \<in> set xs")
    case True
    then have "tl (Split xs CHR ''.'') \<noteq> []" by (simp add: Split_tl_Nil)
    then show ?thesis
      using Cons.IH True Split_nonempty [of xs "CHR ''.''"]
      by (cases "Split xs CHR ''.''") (auto simp: final_segment_Cons)
  next
    case False
    then show ?thesis
      by (simp add: Split_absent final_segment_Cons)
  qed
qed

lemma keep_last_one: "ps \<noteq> [] \<Longrightarrow> keep_last 1 ps = [last ps]"
proof -
  assume ne: "ps \<noteq> []"
  then have "drop (length ps - 1) ps = [last ps]"
    by (cases ps rule: rev_cases) simp_all
  then show ?thesis using ne by (cases ps) (auto simp: keep_last_def Let_def)
qed

lemma resolveTypeLabel_from_1_0:
  "resolveTypeLabel_from s 1 0 = final_segment (remove_decoration s)"
  by (simp add: resolveTypeLabel_from_def keep_last_one Split_nonempty drop_last_def last_Split)

lemma final_segment_chars:
  "set (final_segment s) \<subseteq> set s - {CHR ''.''}"
  by (auto simp: final_segment_def dest: set_takeWhileD)

text \<open>
  Claim C2. A qualified type string is a non-empty namespace path \<open>ns\<close>, the separator
  \<open>/\<close>, and a non-empty type part \<open>ty\<close> without \<open>/\<close> (so the separator is the last
  one), with or without decorations. On it, \<open>polishKindName\<close> with take 1 and drop 0
  returns the text after the last \<open>.\<close> of the type part with \<open>(\<close>, \<open>)\<close> and \<open>*\<close>
  removed: the bare final type-name segment, in which no namespace separator, no
  decoration character and no dot is left.
\<close>

theorem polishKindName_bare_type_name:
  assumes "ns \<noteq> []" and "ty \<noteq> []" and "CHR ''/'' \<notin> set ty"
  shows "polishKindName (ns @ ''/'' @ ty) 1 0 = Inr (final_segment (remove_decoration ty))
    \<and> set (final_segment (remove_decoration ty))
        \<inter> {CHR ''/'', CHR ''('', CHR '')'', CHR ''*'', CHR ''.''} = {}"
proof
  have ix: "LastIndex (ns @ CHR ''/'' # ty) CHR ''/'' = int (length ns)"
    using assms(3) by (rule LastIndex_append)
  show "polishKindName (ns @ ''/'' @ ty) 1 0 = Inr (final_segment (remove_decoration ty))"
    using assms(1,2) by (simp add: polish_tail ix resolveTypeLabel_from_1_0 nat_add_distrib)
  have "set (final_segment (remove_decoration ty)) \<subseteq> set (remove_decoration ty) - {CHR ''.''}"
    by (rule final_segment_chars)
  moreover have "set (remove_decoration ty) \<subseteq> set ty - {CHR ''('', CHR '')'', CHR ''*''}"
    by (auto simp: remove_decoration_def)
  ultimately show "set (final_segment (remove_decoration ty))
        \<inter> {CHR ''/'', CHR ''('', CHR '')'', CHR ''*'', CHR ''.''} = {}"
    using assms(3) by blast
qed

text \<open>\<open>"pkg/sub.(*SomeService)"\<close> yields \<open>"SomeService"\<close>.\<close>

theorem polishKindName_bare_type_name_witness:
  "''pkg'' \<noteq> [] \<and> ''sub.(*SomeService)'' \<noteq> [] \<and> CHR ''/'' \<notin> set ''sub.(*SomeService)''
   \<and> polishKindName ''pkg/sub.(*SomeService)'' 1 0 = Inr ''SomeService''"
  using polishKindName_bare_type_name [of "''pkg''" "''sub.(*SomeService)''"]
  by (simp add: final_segment_def remove_decoration_def)

section \<open>Properties of getMessages\<close>

lemma HasSuffix_iff_suffix: "HasSuffix s sfx \<longleftrightarrow> suffix sfx s"
proof
  assume "HasSuffix s sfx"
  then have "s = take (length s - length sfx) s @ sfx"
    by (metis HasSuffix_def append_take_drop_id)
  then show "suffix sfx s" by (rule suffixI)
next
  assume "suffix sfx s"
  then obtain p where "s = p @ sfx" by (auto simp: suffix_def)
  then show "HasSuffix s sfx" by (simp add: HasSuffix_def)
qed

lemma HasSuffix_append: "HasSuffix (p @ sfx) sfx"
  by (simp add: HasSuffix_def)

lemma TrimSuffix_append: "TrimSuffix (p @ sfx) sfx = p"
  by (simp add: TrimSuffix_def HasSuffix_def)


lemma suffix_Message_not_Queue: "\<not> HasSuffix (p @ ''Message'') ''Queue''"
  by (simp add: HasSuffix_iff_suffix suffix_to_prefix)

lemma suffix_Message_not_MessageQueue: "\<not> HasSuffix (p @ ''Message'') ''MessageQueue''"
  by (simp add: HasSuffix_iff_suffix suffix_to_prefix)

lemma suffix_MessageQueue_not_Message: "\<not> HasSuffix (p @ ''MessageQueue'') ''Message''"
  by (simp add: HasSuffix_iff_suffix suffix_to_prefix)

lemma TrimSuffix_MessageQueue: "TrimSuffix (p @ ''MessageQueue'') ''Queue'' = p @ ''Message''"
  using TrimSuffix_append [of "p @ ''Message''" "''Queue''"] by simp

lemma polishKindName_total: "\<exists>k. polishKindName t a b = Inr k"
  by (simp add: polish_tail Let_def)

lemma getMessages_body_queue:
  assumes "MethodByName svc (p @ ''MessageQueue'') = Some cb"
    and "polishKindName (typeString svc) 1 0 = Inr k"
  shows "getMessages_body ul svc (p @ ''MessageQueue'') =
           Inr (Some \<lparr>queue = True, serviceName = ToLower ul k,
                      messageName = ToLower ul p, message = cb\<rparr>)"
  using assms HasSuffix_append [of p "''MessageQueue''"] TrimSuffix_append [of p "''Message''"]
  unfolding getMessages_body_def Let_def TrimSuffix_MessageQueue
  by simp

lemma getMessages_body_plain:
  assumes "MethodByName svc (q @ ''Message'') = Some cb"
    and "polishKindName (typeString svc) 1 0 = Inr k"
  shows "getMessages_body ul svc (q @ ''Message'') =
           Inr (Some \<lparr>queue = False, serviceName = ToLower ul k,
                      messageName = ToLower ul q, message = cb\<rparr>)"
proof -
  have "TrimSuffix (q @ ''Message'') ''Queue'' = q @ ''Message''"
    using suffix_Message_not_Queue [of q] by (simp add: TrimSuffix_def)
  then show ?thesis
    using assms HasSuffix_append [of q "''Message''"]
      TrimSuffix_append [of q "''Message''"] suffix_Message_not_MessageQueue [of q]
    unfolding getMessages_body_def Let_def
    by simp
qed

text \<open>
  Claim C3. For a member \<open>n\<close> of the service: when \<open>n\<close> is \<open>p\<close> followed by
  \<open>MessageQueue\<close>, the loop body of \<open>getMessages\<close> yields a descriptor with
  \<open>queue\<close> set whose \<open>messageName\<close> is the lower-cased \<open>p\<close>, that is the name with
  the trailing \<open>Queue\<close> and then the trailing \<open>Message\<close> removed; when \<open>n\<close> is \<open>q\<close>
  followed by \<open>Message\<close> (such a name never ends in \<open>MessageQueue\<close>), it yields a
  descriptor with \<open>queue\<close> unset whose \<open>messageName\<close> is the lower-cased \<open>q\<close>.
\<close>

theorem getMessages_body_resolves:
  assumes "MethodByName svc n = Some cb"
  shows "(n = p @ ''MessageQueue'' \<longrightarrow>
           (\<exists>v. getMessages_body ul svc n = Inr (Some v) \<and> queue v
                \<and> messageName v = ToLower ul p \<and> message v = cb))
       \<and> (n = q @ ''Message'' \<longrightarrow>
           (\<exists>v. getMessages_body ul svc n = Inr (Some v) \<and> \<not> queue v
                \<and> messageName v = ToLower ul q \<and> message v = cb))"
proof -
  obtain k where k: "polishKindName (typeString svc) 1 0 = Inr k"
    using polishKindName_total by blast
  show ?thesis
    using assms k getMessages_body_queue [of svc p cb k ul]
      getMessages_body_plain [of svc q cb k ul]
    by auto
qed

text \<open>
  \<open>RepActionMessageQueue\<close> gives \<open>("repaction", true)\<close> and \<open>SubActionMessage\<close> gives
  \<open>("subaction", false)\<close>.
\<close>

theorem getMessages_body_resolves_witness:
  "MethodByName \<lparr>typeString = ''*subly.someService'',
        methods = [(''RepActionMessageQueue'', 1::nat), (''SubActionMessage'', 2)]\<rparr>
      ''RepActionMessageQueue'' = Some 1
   \<and> (\<exists>v. getMessages_body id \<lparr>typeString = ''*subly.someService'',
              methods = [(''RepActionMessageQueue'', 1::nat), (''SubActionMessage'', 2)]\<rparr>
            ''RepActionMessageQueue'' = Inr (Some v)
          \<and> queue v \<and> messageName v = ''repaction'' \<and> message v = 1)
   \<and> MethodByName \<lparr>typeString = ''*subly.someService'',
        methods = [(''RepActionMessageQueue'', 1::nat), (''SubActionMessage'', 2)]\<rparr>
      ''SubActionMessage'' = Some 2
   \<and> (\<exists>v. getMessages_body id \<lparr>typeString = ''*subly.someService'',
              methods = [(''RepActionMessageQueue'', 1::nat), (''SubActionMessage'', 2)]\<rparr>
            ''SubActionMessage'' = Inr (Some v)
          \<and> \<not> queue v \<and> messageName v = ''subaction'' \<and> message v = 2)"
proof -
  let ?svc = "\<lparr>typeString = ''*subly.someService'',
        methods = [(''RepActionMessageQueue'', 1::nat), (''SubActionMessage'', 2)]\<rparr>"
  have m1: "MethodByName ?svc ''RepActionMessageQueue'' = Some 1"
    and m2: "MethodByName ?svc ''SubActionMessage'' = Some 2"
    by (simp_all add: MethodByName_def)
  have l1: "ToLower id ''RepAction'' = ''repaction''"
    and l2: "ToLower id ''SubAction'' = ''subaction''"
    by code_simp+
  show ?thesis
    using getMessages_body_resolves [OF m1, where p = "''RepAction''" and ul = id
        and q = "''RepActionMessageQueue''"]
      getMessages_body_resolves [OF m2, where q = "''SubAction''" and ul = id
        and p = "''SubActionMessage''"]
      m1 m2 l1 l2
    by simp
qed

lemma getMessages_body_skip:
  "\<not> HasSuffix n ''Message'' \<Longrightarrow> \<not> HasSuffix n ''MessageQueue''
     \<Longrightarrow> getMessages_body ul svc n = Inr None"
  by (simp add: getMessages_body_def)

lemma getMessages_body_cong:
  assumes "typeString svc = typeString svc'" and "MethodByName svc n = MethodByName svc' n"
  shows "getMessages_body ul svc n = getMessages_body ul svc' n"
  unfolding getMessages_body_def assms by (rule refl)

lemma getMessages_loop_cong:
  "(\<And>m. m \<in> set L \<Longrightarrow> getMessages_body ul svc (fst m) = getMessages_body ul svc' (fst m))
     \<Longrightarrow> getMessages_loop ul svc L res = getMessages_loop ul svc' L res"
  by (induction L arbitrary: res) (simp_all split: sum.splits option.splits)

lemma getMessages_loop_append:
  "getMessages_loop ul svc (L1 @ L2) res =
     (case getMessages_loop ul svc L1 res of
        Inl p \<Rightarrow> Inl p
      | Inr r \<Rightarrow> getMessages_loop ul svc L2 r)"
  by (induction L1 arbitrary: res) (simp_all split: sum.splits option.splits)

lemma getMessages_body_found:
  "MethodByName svc n \<noteq> None \<Longrightarrow> \<exists>r. getMessages_body ul svc n = Inr r"
  using polishKindName_total [of "typeString svc" 1 0]
  by (auto simp: getMessages_body_def Let_def)

lemma getMessages_loop_total:
  "(\<And>m. m \<in> set L \<Longrightarrow> MethodByName svc (fst m) \<noteq> None)
     \<Longrightarrow> \<exists>ds. getMessages_loop ul svc L res = Inr ds"
proof (induction L arbitrary: res)
  case Nil
  then show ?case by simp
next
  case (Cons m L)
  obtain r where r: "getMessages_body ul svc (fst m) = Inr r"
    using getMessages_body_found [of svc "fst m" ul] Cons.prems [of m] by auto
  show ?case using Cons.IH Cons.prems r by (cases r) simp_all
qed

lemma MethodByName_member: "m \<in> set (methods svc) \<Longrightarrow> MethodByName svc (fst m) \<noteq> None"
  by (cases m) (auto simp: MethodByName_def map_of_eq_None_iff intro: rev_image_eqI)

lemma getMessages_total: "\<exists>ds. getMessages ul (Some svc) = Inr ds"
  using getMessages_loop_total [of "methods svc" svc ul "[]"] MethodByName_member [of _ svc]
  by (simp add: getMessages_def)

text \<open>
  Claim C8. For a member name \<open>n\<close> that ends neither in \<open>Message\<close> nor in
  \<open>MessageQueue\<close>, the loop body of \<open>getMessages\<close> continues without a descriptor,
  and the enumeration of a service is the same with that member as without it;
  nothing is reported, the enumeration returns its list.
\<close>

theorem getMessages_skips_unmatched:
  assumes "\<not> suffix ''Message'' n" and "\<not> suffix ''MessageQueue'' n"
  shows "getMessages_body ul svc n = Inr None
    \<and> getMessages ul (Some \<lparr>typeString = t, methods = pre @ (n, cb) # post\<rparr>)
        = getMessages ul (Some \<lparr>typeString = t, methods = pre @ post\<rparr>)
    \<and> (\<exists>ds. getMessages ul (Some \<lparr>typeString = t, methods = pre @ (n, cb) # post\<rparr>) = Inr ds)"
proof -
  let ?with = "\<lparr>typeString = t, methods = pre @ (n, cb) # post\<rparr>"
  let ?without = "\<lparr>typeString = t, methods = pre @ post\<rparr>"
  have no: "\<not> HasSuffix n ''Message''" "\<not> HasSuffix n ''MessageQueue''"
    using assms by (simp_all add: HasSuffix_iff_suffix)
  note skip = getMessages_body_skip [OF no]
  have same: "getMessages_body ul ?with k = getMessages_body ul ?without k" for k
  proof (cases "k = n")
    case True
    then show ?thesis by (simp add: skip)
  next
    case False
    then have "MethodByName ?with k = MethodByName ?without k"
      by (simp add: MethodByName_def map_of_append map_add_def split: option.splits)
    then show ?thesis by (simp add: getMessages_body_cong)
  qed
  have "getMessages_loop ul ?with (pre @ (n, cb) # post) []
      = getMessages_loop ul ?with (pre @ post) []"
    by (simp add: getMessages_loop_append skip split: sum.splits)
  also have "\<dots> = getMessages_loop ul ?without (pre @ post) []"
    by (rule getMessages_loop_cong) (rule same)
  finally have "getMessages ul (Some ?with) = getMessages ul (Some ?without)"
    by (simp add: getMessages_def)
  then show ?thesis using skip [of ul svc] getMessages_total [of ul ?with] by simp
qed

text \<open>
  A service with the methods \<open>Helper\<close> and \<open>SubActionMessage\<close> enumerates as the
  service with \<open>SubActionMessage\<close> alone.
\<close>

theorem getMessages_skips_unmatched_witness:
  "\<not> suffix ''Message'' ''Helper'' \<and> \<not> suffix ''MessageQueue'' ''Helper''
   \<and> getMessages_body id \<lparr>typeString = ''*subly.someService'',
         methods = [(''Helper'', 0::nat), (''SubActionMessage'', 1)]\<rparr> ''Helper'' = Inr None
   \<and> getMessages id (Some \<lparr>typeString = ''*subly.someService'',
         methods = [(''Helper'', 0::nat), (''SubActionMessage'', 1)]\<rparr>)
       = getMessages id (Some \<lparr>typeString = ''*subly.someService'',
         methods = [(''SubActionMessage'', 1)]\<rparr>)"
proof -
  have a: "\<not> suffix ''Message'' ''Helper''" and b: "\<not> suffix ''MessageQueue'' ''Helper''"
    by (simp_all add: suffix_to_prefix)
  show ?thesis
    using getMessages_skips_unmatched [OF a b, where ul = id and t = "''*subly.someService''"
        and pre = "[]" and post = "[(''SubActionMessage'', 1::nat)]" and cb = 0
        and svc = "\<lparr>typeString = ''*subly.someService'',
         methods = [(''Helper'', 0::nat), (''SubActionMessage'', 1)]\<rparr>"] a b
    by simp
qed


lemma lowerByte_not_upper: "\<not> isUpper (lowerByte c)"
proof (cases "isUpper c")
  case True
  then have "(of_char (char_of ((of_char c :: nat) + 32)) :: nat) = of_char c + 32"
    by (simp add: isUpper_def)
  with True show ?thesis by (simp add: lowerByte_def isUpper_def)
next
  case False
  then show ?thesis by (simp add: lowerByte_def)
qed

lemma ToLower_ascii: "isASCII s \<Longrightarrow> ToLower ul s = map lowerByte s"
  by (simp add: ToLower_def)

lemma lower_case_ToLower: "isASCII s \<Longrightarrow> lower_case (ToLower ul s)"
  by (simp add: ToLower_ascii lower_case_def list_all_iff lowerByte_not_upper)

lemma isASCII_subset: "isASCII s \<Longrightarrow> set s' \<subseteq> set s \<Longrightarrow> isASCII s'"
  by (auto simp: isASCII_def list_all_iff)

lemma ToLower_empty_iff: "isASCII s \<Longrightarrow> ToLower ul s = [] \<longleftrightarrow> s = []"
  by (simp add: ToLower_ascii)

lemma getMessages_body_Some:
  assumes "getMessages_body ul svc n = Inr (Some v)"
  shows "\<exists>p k. (n = p @ ''Message'' \<and> \<not> queue v \<or> n = p @ ''MessageQueue'' \<and> queue v)
           \<and> messageName v = ToLower ul p
           \<and> polishKindName (typeString svc) 1 0 = Inr k \<and> serviceName v = ToLower ul k"
proof -
  obtain k where k: "polishKindName (typeString svc) 1 0 = Inr k"
    using polishKindName_total by blast
  obtain cb where cb: "MethodByName svc n = Some cb"
    using assms by (cases "MethodByName svc n") (auto simp: getMessages_body_def Let_def split: if_splits)
  have match: "HasSuffix n ''Message'' \<or> HasSuffix n ''MessageQueue''"
    using assms by (auto simp: getMessages_body_def Let_def split: if_splits)
  show ?thesis
  proof (cases "HasSuffix n ''MessageQueue''")
    case True
    then obtain p where p: "n = p @ ''MessageQueue''"
      by (auto simp: HasSuffix_iff_suffix suffix_def)
    from getMessages_body_queue [of svc p cb k ul]
    show ?thesis using assms k p cb by auto
  next
    case False
    with match obtain p where p: "n = p @ ''Message''"
      by (auto simp: HasSuffix_iff_suffix suffix_def)
    from getMessages_body_plain [of svc p cb k ul]
    show ?thesis using assms k p cb by auto
  qed
qed


lemma getMessages_loop_members:
  "getMessages_loop ul svc L res = Inr ds \<Longrightarrow> v \<in> set ds
     \<Longrightarrow> v \<in> set res \<or> (\<exists>m\<in>set L. getMessages_body ul svc (fst m) = Inr (Some v))"
proof (induction L arbitrary: res)
  case Nil
  then show ?case by simp
next
  case (Cons m L)
  show ?case
  proof (cases "getMessages_body ul svc (fst m)")
    case (Inl e)
    with Cons.prems show ?thesis by simp
  next
    case (Inr r)
    show ?thesis
    proof (cases r)
      case None
      with Inr Cons.prems Cons.IH [of res] show ?thesis by auto
    next
      case (Some sm)
      with Inr Cons.prems Cons.IH [of "res @ [sm]"] show ?thesis by auto
    qed
  qed
qed

lemma final_segment_nonempty: "s \<noteq> [] \<Longrightarrow> last s \<noteq> CHR ''.'' \<Longrightarrow> final_segment s \<noteq> []"
  by (cases s rule: rev_cases) (simp_all add: final_segment_def)

lemma remove_decoration_last:
  "s \<noteq> [] \<Longrightarrow> last s \<notin> {CHR ''('', CHR '')'', CHR ''*''}
     \<Longrightarrow> remove_decoration s \<noteq> [] \<and> last (remove_decoration s) = last s"
  by (cases s rule: rev_cases) (simp_all add: remove_decoration_def)

lemma polishKindName_suffix:
  "\<exists>t'. polishKindName t 1 0 = Inr (final_segment (remove_decoration t'))
        \<and> suffix t' t \<and> (t \<noteq> [] \<longrightarrow> t' \<noteq> [])"
proof (cases "0 < LastIndex t CHR ''/'' \<and> LastIndex t CHR ''/'' + 1 < int (length t)")
  case True
  then have "nat (LastIndex t CHR ''/'' + 1) < length t" by linarith
  then have "drop (nat (LastIndex t CHR ''/'' + 1)) t \<noteq> []" by simp
  then show ?thesis
    using True suffix_drop [of "nat (LastIndex t CHR ''/'' + 1)" t]
    by (auto simp: polish_tail Let_def resolveTypeLabel_from_1_0)
next
  case False
  then have "polishKindName t 1 0 = Inr (final_segment (remove_decoration t))"
    by (auto simp: polish_tail Let_def resolveTypeLabel_from_1_0)
  then show ?thesis by blast
qed

lemma polishKindName_kind:
  assumes "polishKindName t 1 0 = Inr k"
  shows "set k \<subseteq> set t"
    and "t \<noteq> [] \<Longrightarrow> last t \<notin> {CHR ''.'', CHR ''('', CHR '')'', CHR ''*''} \<Longrightarrow> k \<noteq> []"
proof -
  obtain t' where k: "k = final_segment (remove_decoration t')"
    and sfx: "suffix t' t" and ne: "t \<noteq> [] \<longrightarrow> t' \<noteq> []"
    using polishKindName_suffix [of t] assms by auto
  have "set k \<subseteq> set (remove_decoration t')"
    unfolding k using final_segment_chars by blast
  also have "\<dots> \<subseteq> set t'" by (auto simp: remove_decoration_def)
  also have "\<dots> \<subseteq> set t" using sfx by (rule set_mono_suffix)
  finally show "set k \<subseteq> set t" .
  assume t: "t \<noteq> []" and l: "last t \<notin> {CHR ''.'', CHR ''('', CHR '')'', CHR ''*''}"
  from t ne have t': "t' \<noteq> []" by simp
  with sfx have "last t' = last t" by (auto simp: suffix_def)
  with l t' have "remove_decoration t' \<noteq> [] \<and> last (remove_decoration t') \<noteq> CHR ''.''"
    using remove_decoration_last [of t'] by auto
  then show "k \<noteq> []" unfolding k by (simp add: final_segment_nonempty)
qed

lemma Subscribe_body_queued:
  "queue v \<Longrightarrow> calls (Subscribe_body econn v w) =
     calls w @ [QueueSubscribe (serviceName v @ ''.'' @ messageName v)
                  (serviceName v @ ''_'' @ messageName v) (message v)]"
  by (simp add: Subscribe_body_def qsub_def Let_def split: sum.splits)

lemma Subscribe_body_plain:
  "\<not> queue v \<Longrightarrow> calls (Subscribe_body econn v w) =
     calls w @ [PlainSubscribe (serviceName v @ ''.'' @ messageName v) (message v)]"
  by (simp add: Subscribe_body_def sub_def Let_def split: sum.splits)

text \<open>
  Claim C4, as amended. For a service whose type string and member names are ASCII
  (other strings are lower-cased by Go's Unicode tables, outside this repository) and
  whose type string ends in a character other than \<open>.\<close>, \<open>(\<close>, \<open>)\<close> and \<open>*\<close>, every
  descriptor of the enumeration has a lower-case \<open>serviceName\<close> and \<open>messageName\<close> and
  a non-empty \<open>serviceName\<close>; it comes from a member, and its \<open>messageName\<close> is empty
  exactly when that member is named \<open>Message\<close> or \<open>MessageQueue\<close>; and when the
  descriptor is queued,
  \<open>Subscribe\<close> registers it with the queue name \<open>serviceName_messageName\<close>.
\<close>

theorem getMessages_descriptor_names:
  assumes "getMessages ul (Some svc) = Inr ds" and "v \<in> set ds"
    and "isASCII (typeString svc)" and "\<forall>m\<in>set (methods svc). isASCII (fst m)"
    and "typeString svc \<noteq> []"
    and "last (typeString svc) \<notin> {CHR ''.'', CHR ''('', CHR '')'', CHR ''*''}"
  shows "lower_case (serviceName v) \<and> lower_case (messageName v) \<and> serviceName v \<noteq> []
    \<and> (\<exists>m\<in>set (methods svc). getMessages_body ul svc (fst m) = Inr (Some v)
          \<and> (messageName v = [] \<longleftrightarrow> fst m = ''Message'' \<or> fst m = ''MessageQueue''))
    \<and> (queue v \<longrightarrow>
         calls (Subscribe_body econn v w) =
           calls w @ [QueueSubscribe (serviceName v @ ''.'' @ messageName v)
                        (serviceName v @ ''_'' @ messageName v) (message v)])"
proof -
  obtain m where m: "m \<in> set (methods svc)"
    and body: "getMessages_body ul svc (fst m) = Inr (Some v)"
    using getMessages_loop_members [of ul svc "methods svc" "[]" ds v] assms(1,2)
    by (auto simp: getMessages_def)
  obtain p k where n: "fst m = p @ ''Message'' \<or> fst m = p @ ''MessageQueue''"
    and mn: "messageName v = ToLower ul p"
    and k: "polishKindName (typeString svc) 1 0 = Inr k" and sn: "serviceName v = ToLower ul k"
    using getMessages_body_Some [OF body] by blast
  have "isASCII (fst m)" using assms(4) m by blast
  then have ap: "isASCII p" using n by (auto intro: isASCII_subset)
  have ak: "isASCII k"
    using assms(3) polishKindName_kind(1) [OF k] by (rule isASCII_subset)
  have kne: "k \<noteq> []" using polishKindName_kind(2) [OF k] assms(5,6) by blast
  have "lower_case (serviceName v)" unfolding sn using ak by (rule lower_case_ToLower)
  moreover have "lower_case (messageName v)" unfolding mn using ap by (rule lower_case_ToLower)
  moreover have "serviceName v \<noteq> []" unfolding sn using ak kne by (simp add: ToLower_empty_iff)
  moreover have "\<exists>m\<in>set (methods svc). getMessages_body ul svc (fst m) = Inr (Some v)
          \<and> (messageName v = [] \<longleftrightarrow> fst m = ''Message'' \<or> fst m = ''MessageQueue'')"
  proof -
    have e: "messageName v = [] \<longleftrightarrow> p = []"
      unfolding mn using ap by (rule ToLower_empty_iff)
    have "p = [] \<longleftrightarrow> fst m = ''Message'' \<or> fst m = ''MessageQueue''"
    proof (cases "fst m = p @ ''Message''")
      case True
      have "p @ ''Message'' \<noteq> ''MessageQueue''"
        using suffix_Message_not_MessageQueue [of p] HasSuffix_append [of "[]" "''MessageQueue''"]
        by auto
      with True show ?thesis by auto
    next
      case False
      with n have q: "fst m = p @ ''MessageQueue''" by simp
      have "p @ ''MessageQueue'' \<noteq> ''Message''"
        using suffix_MessageQueue_not_Message [of p] HasSuffix_append [of "[]" "''Message''"]
        by auto
      with q show ?thesis by auto
    qed
    with e m body show ?thesis by blast
  qed
  ultimately show ?thesis using Subscribe_body_queued [of v econn w] by blast
qed

text \<open>
  Claim C4 as stated fails for a member named \<open>Message\<close>: its descriptor has the empty
  \<open>messageName\<close>.
\<close>

theorem getMessages_empty_messageName_counterexample:
  "getMessages id (Some \<lparr>typeString = ''*subly.someService'', methods = [(''Message'', ())]\<rparr>)
     = Inr [\<lparr>queue = False, serviceName = ''someservice'', messageName = [], message = ()\<rparr>]"
  by code_simp

text \<open>
  The service \<open>*subly.someService\<close> with the methods \<open>RepActionMessageQueue\<close> and
  \<open>SubActionMessage\<close>, and its queued descriptor.
\<close>

theorem getMessages_descriptor_names_witness:
  "getMessages id (Some \<lparr>typeString = ''*subly.someService'',
        methods = [(''RepActionMessageQueue'', 7::nat), (''SubActionMessage'', 8)]\<rparr>)
     = Inr [\<lparr>queue = True, serviceName = ''someservice'', messageName = ''repaction'',
              message = 7\<rparr>,
            \<lparr>queue = False, serviceName = ''someservice'', messageName = ''subaction'',
              message = 8\<rparr>]
   \<and> lower_case ''someservice'' \<and> lower_case ''repaction''
   \<and> calls (Subscribe_body \<lparr>subscribe_result = (\<lambda>h c. Inr (length h) :: nat + nat),
                              unsubscribe_result = (\<lambda>u h. None)\<rparr>
              \<lparr>queue = True, serviceName = ''someservice'', messageName = ''repaction'',
                message = 7::nat\<rparr> initial_world)
       = [QueueSubscribe ''someservice.repaction'' ''someservice_repaction'' 7]"
proof -
  let ?svc = "\<lparr>typeString = ''*subly.someService'',
        methods = [(''RepActionMessageQueue'', 7::nat), (''SubActionMessage'', 8)]\<rparr>"
  let ?v = "\<lparr>queue = True, serviceName = ''someservice'', messageName = ''repaction'',
              message = 7::nat\<rparr>"
  let ?v' = "\<lparr>queue = False, serviceName = ''someservice'', messageName = ''subaction'',
              message = 8::nat\<rparr>"
  have g: "getMessages id (Some ?svc) = Inr [?v, ?v']" by code_simp
  have v: "?v \<in> set [?v, ?v']" by simp
  have a1: "isASCII (typeString ?svc)" by code_simp
  have a2: "\<forall>m\<in>set (methods ?svc). isASCII (fst m)"
  proof -
    have "isASCII ''RepActionMessageQueue''" "isASCII ''SubActionMessage''" by code_simp+
    then show ?thesis by simp
  qed
  have a3: "typeString ?svc \<noteq> []" by simp
  have a4: "last (typeString ?svc) \<notin> {CHR ''.'', CHR ''('', CHR '')'', CHR ''*''}" by simp
  show ?thesis
    using getMessages_descriptor_names [OF g v a1 a2 a3 a4,
        where econn = "\<lparr>subscribe_result = (\<lambda>h c. Inr (length h) :: nat + nat),
                              unsubscribe_result = (\<lambda>u h. None)\<rparr>"
          and w = initial_world] g
    by (simp add: initial_world_def)
qed

section \<open>Properties of sub, qsub, Subscribe and SubscribeFunc\<close>

lemma calls_sub: "calls (sub econn subject x w) = calls w @ [PlainSubscribe subject x]"
  by (simp add: sub_def split: sum.splits)

lemma calls_qsub:
  "calls (qsub econn queueName subject x w) = calls w @ [QueueSubscribe subject queueName x]"
  by (simp add: qsub_def split: sum.splits)

lemma calls_Subscribe_body: "calls (Subscribe_body econn v w) = calls w @ [registration v]"
  by (simp add: Subscribe_body_def registration_def Let_def calls_sub calls_qsub)

lemma calls_Subscribe_loop:
  "calls (foldl (\<lambda>w' v. Subscribe_body econn v w') w ds) = calls w @ map registration ds"
  by (induction ds arbitrary: w) (simp_all add: calls_Subscribe_body)

text \<open>
  Claim C5. \<open>Subscribe\<close> on a service enumerates its descriptors and makes, in their
  order, one subscribe call for each: under the subject \<open>serviceName.messageName\<close>,
  as a queue subscription with the queue name \<open>serviceName_messageName\<close> when the
  descriptor is queued and as a plain subscription otherwise.
\<close>

theorem Subscribe_registers_descriptors:
  "\<exists>ds w'. getMessages ul (Some svc) = Inr ds \<and> Subscribe ul econn (Some svc) w = Inr w'
      \<and> calls w' = calls w @ map registration ds"
proof -
  obtain ds where ds: "getMessages ul (Some svc) = Inr ds"
    using getMessages_total by blast
  then show ?thesis by (simp add: Subscribe_def calls_Subscribe_loop)
qed

text \<open>
  The two registrations of \<open>*subly.someService\<close>.
\<close>

theorem Subscribe_registers_descriptors_witness:
  "\<exists>w'. Subscribe id \<lparr>subscribe_result = (\<lambda>h c. Inr (length h) :: nat + nat),
                         unsubscribe_result = (\<lambda>u h. None)\<rparr>
           (Some \<lparr>typeString = ''*subly.someService'',
                  methods = [(''RepActionMessageQueue'', 7::nat), (''SubActionMessage'', 8)]\<rparr>)
           initial_world = Inr w'
       \<and> calls w' = [QueueSubscribe ''someservice.repaction'' ''someservice_repaction'' 7,
                      PlainSubscribe ''someservice.subaction'' 8]"
proof -
  let ?svc = "\<lparr>typeString = ''*subly.someService'',
        methods = [(''RepActionMessageQueue'', 7::nat), (''SubActionMessage'', 8)]\<rparr>"
  have g: "getMessages id (Some ?svc)
      = Inr [\<lparr>queue = True, serviceName = ''someservice'', messageName = ''repaction'',
               message = 7\<rparr>,
             \<lparr>queue = False, serviceName = ''someservice'', messageName = ''subaction'',
               message = 8\<rparr>]"
    by code_simp
  show ?thesis
    using Subscribe_registers_descriptors [where ul = id and svc = ?svc and w = initial_world
        and econn = "\<lparr>subscribe_result = (\<lambda>h c. Inr (length h) :: nat + nat),
                         unsubscribe_result = (\<lambda>u h. None)\<rparr>"] g
    by (auto simp: registration_def initial_world_def)
qed

lemma SubscribeFunc_loop_queued:
  "calls (foldl (\<lambda>w' (sb, m). qsub econn q sb m w') w ms)
     = calls w @ map (\<lambda>(sb, m). QueueSubscribe sb q m) ms"
  by (induction ms arbitrary: w) (auto simp: calls_qsub)

lemma SubscribeFunc_loop_plain:
  "calls (foldl (\<lambda>w' (sb, m). sub econn sb m w') w ms)
     = calls w @ map (\<lambda>(sb, m). PlainSubscribe sb m) ms"
  by (induction ms arbitrary: w) (auto simp: calls_sub)

lemma SubscribeFunc_queued:
  "q \<noteq> [] \<Longrightarrow> SubscribeFunc econn ms (q # rest) w = foldl (\<lambda>w' (sb, m). qsub econn q sb m w') w ms"
  by (simp add: SubscribeFunc_def Let_def)

lemma SubscribeFunc_empty_name:
  "SubscribeFunc econn ms ([] # rest) w = foldl (\<lambda>w' (sb, m). sub econn sb m w') w ms"
  by (simp add: SubscribeFunc_def Let_def)

lemma SubscribeFunc_absent:
  "SubscribeFunc econn ms [] w = foldl (\<lambda>w' (sb, m). sub econn sb m w') w ms"
  by (simp add: SubscribeFunc_def Let_def)

text \<open>
  Claim C6. \<open>SubscribeFunc\<close> with a non-empty first queue name makes a queue
  subscription under that one name for every entry of the mapping; with an empty
  first queue name, or with no queue name at all, it makes a plain subscription for
  every entry.
\<close>

theorem SubscribeFunc_shared_queue:
  "(q \<noteq> [] \<longrightarrow> calls (SubscribeFunc econn ms (q # rest) w)
                   = calls w @ map (\<lambda>(sb, m). QueueSubscribe sb q m) ms)
   \<and> calls (SubscribeFunc econn ms ([] # rest) w)
       = calls w @ map (\<lambda>(sb, m). PlainSubscribe sb m) ms
   \<and> calls (SubscribeFunc econn ms [] w)
       = calls w @ map (\<lambda>(sb, m). PlainSubscribe sb m) ms"
  by (simp add: SubscribeFunc_queued SubscribeFunc_empty_name SubscribeFunc_absent
      SubscribeFunc_loop_queued SubscribeFunc_loop_plain)

text \<open>
  Two entries, registered under the queue \<open>workers\<close> and without a queue.
\<close>

theorem SubscribeFunc_shared_queue_witness:
  "''workers'' \<noteq> []
   \<and> calls (SubscribeFunc \<lparr>subscribe_result = (\<lambda>h c. Inr (length h) :: nat + nat),
                             unsubscribe_result = (\<lambda>u h. None)\<rparr>
              [(''a.b'', 7::nat), (''c.d'', 8)] [''workers''] initial_world)
       = [QueueSubscribe ''a.b'' ''workers'' 7, QueueSubscribe ''c.d'' ''workers'' 8]
   \<and> calls (SubscribeFunc \<lparr>subscribe_result = (\<lambda>h c. Inr (length h) :: nat + nat),
                             unsubscribe_result = (\<lambda>u h. None)\<rparr>
              [(''a.b'', 7::nat), (''c.d'', 8)] [] initial_world)
       = [PlainSubscribe ''a.b'' 7, PlainSubscribe ''c.d'' 8]"
  using SubscribeFunc_shared_queue [where q = "''workers''" and rest = "[]"
      and ms = "[(''a.b'', 7::nat), (''c.d'', 8)]" and w = initial_world
      and econn = "\<lparr>subscribe_result = (\<lambda>h c. Inr (length h) :: nat + nat),
                             unsubscribe_result = (\<lambda>u h. None)\<rparr>"]
  by (simp add: initial_world_def)

text \<open>
  Claim C10. Of the variadic queue names only the first counts: a call of
  \<open>SubscribeFunc\<close> with further queue names does what the call with the first alone
  does.
\<close>

theorem SubscribeFunc_first_queue_only:
  "SubscribeFunc econn ms (q # rest) w = SubscribeFunc econn ms [q] w"
  by (simp add: SubscribeFunc_def)


text \<open>
  Three queue names, of which \<open>workers\<close> is used.
\<close>

theorem SubscribeFunc_first_queue_only_witness:
  "calls (SubscribeFunc \<lparr>subscribe_result = (\<lambda>h c. Inr (length h) :: nat + nat),
                           unsubscribe_result = (\<lambda>u h. None)\<rparr>
            [(''a.b'', 7::nat)] [''workers'', ''ignored'', []] initial_world)
     = [QueueSubscribe ''a.b'' ''workers'' 7]"
proof -
  let ?econn = "\<lparr>subscribe_result = (\<lambda>h c. Inr (length h) :: nat + nat),
                           unsubscribe_result = (\<lambda>u h. None)\<rparr>"
  have e: "calls (SubscribeFunc ?econn [(''a.b'', 7::nat)] [''workers''] initial_world)
      = [QueueSubscribe ''a.b'' ''workers'' 7]"
    by (simp add: SubscribeFunc_def qsub_def initial_world_def)
  have "calls (SubscribeFunc ?econn [(''a.b'', 7::nat)] [''workers'', ''ignored'', []] initial_world)
      = calls (SubscribeFunc ?econn [(''a.b'', 7::nat)] [''workers''] initial_world)"
    by (rule arg_cong [OF SubscribeFunc_first_queue_only])
  then show ?thesis using e by (rule trans)
qed

lemma sub_attempt: "sub econn subject x w = attempt econn (PlainSubscribe subject x) w"
  by (simp add: sub_def attempt_def)

lemma qsub_attempt:
  "qsub econn queueName subject x w = attempt econn (QueueSubscribe subject queueName x) w"
  by (simp add: qsub_def attempt_def)

lemma Subscribe_body_attempt: "Subscribe_body econn v w = attempt econn (registration v) w"
  by (simp add: Subscribe_body_def registration_def Let_def sub_attempt qsub_attempt)

lemma granted_append: "granted (rs @ rs') = granted rs @ granted rs'"
  by (induction rs rule: granted.induct) simp_all

lemma refused_append: "refused (rs @ rs') = refused rs @ refused rs'"
  by (induction rs rule: refused.induct) simp_all

lemma outcomes_snoc:
  "outcomes econn hist (cs @ [c]) = outcomes econn hist cs @ [subscribe_result econn (hist @ cs) c]"
  by (induction cs arbitrary: hist) simp_all

lemma attempt_fields:
  "calls (attempt econn c w) = calls w @ [c]"
  "logged (attempt econn c w) = logged w @ refused [subscribe_result econn (calls w) c]"
  "watchers (attempt econn c w) = watchers w @ granted [subscribe_result econn (calls w) c]"
  "cancelled (attempt econn c w) = cancelled w"
  "unsubscribed (attempt econn c w) = unsubscribed w"
  by (cases "subscribe_result econn (calls w) c"; simp add: attempt_def)+

lemma granted_Cons: "granted (r # rs) = granted [r] @ granted rs"
  by (cases r) simp_all

lemma refused_Cons: "refused (r # rs) = refused [r] @ refused rs"
  by (cases r) simp_all

lemma attempts_effect:
  "calls (foldl (\<lambda>w' c. attempt econn c w') w cs) = calls w @ cs
   \<and> logged (foldl (\<lambda>w' c. attempt econn c w') w cs)
       = logged w @ refused (outcomes econn (calls w) cs)
   \<and> watchers (foldl (\<lambda>w' c. attempt econn c w') w cs)
       = watchers w @ granted (outcomes econn (calls w) cs)
   \<and> cancelled (foldl (\<lambda>w' c. attempt econn c w') w cs) = cancelled w
   \<and> unsubscribed (foldl (\<lambda>w' c. attempt econn c w') w cs) = unsubscribed w"
proof (induction cs arbitrary: w)
  case Nil
  then show ?case by simp
next
  case (Cons c cs)
  show ?case
    using Cons.IH [of "attempt econn c w"]
      granted_Cons [of "subscribe_result econn (calls w) c" "outcomes econn (calls w @ [c]) cs"]
      refused_Cons [of "subscribe_result econn (calls w) c" "outcomes econn (calls w @ [c]) cs"]
    by (simp add: attempt_fields)
qed

lemma Subscribe_loop_attempts:
  "foldl (\<lambda>w' v. Subscribe_body econn v w') w ds
     = foldl (\<lambda>w' c. attempt econn c w') w (map registration ds)"
  by (induction ds arbitrary: w) (simp_all add: Subscribe_body_attempt)

text \<open>
  Claim C7. When the connection answers a subscribe call of \<open>sub\<close> or \<open>qsub\<close> with
  an error, the function returns with the error logged and nothing else changed but
  the record of the call: no goroutine is started. \<open>Subscribe\<close> on a service returns
  normally whatever the connection answers; it makes the call of every descriptor,
  logs exactly the errors answered and starts a goroutine for exactly the
  subscriptions granted, so a refusal does not keep the descriptors after it from
  being registered.
\<close>

theorem subscribe_failure_is_local:
  "(subscribe_result econn (calls w) (PlainSubscribe subject x) = Inl err \<longrightarrow>
      sub econn subject x w
        = w\<lparr>calls := calls w @ [PlainSubscribe subject x], logged := logged w @ [err]\<rparr>)
   \<and> (subscribe_result econn (calls w) (QueueSubscribe subject queueName x) = Inl err \<longrightarrow>
      qsub econn queueName subject x w
        = w\<lparr>calls := calls w @ [QueueSubscribe subject queueName x],
             logged := logged w @ [err]\<rparr>)
   \<and> (\<exists>ds w'. getMessages ul (Some svc) = Inr ds \<and> Subscribe ul econn (Some svc) w = Inr w'
         \<and> calls w' = calls w @ map registration ds
         \<and> logged w' = logged w @ refused (outcomes econn (calls w) (map registration ds))
         \<and> watchers w' = watchers w @ granted (outcomes econn (calls w) (map registration ds))
         \<and> cancelled w' = cancelled w \<and> unsubscribed w' = unsubscribed w)"
proof (intro conjI)
  show "subscribe_result econn (calls w) (PlainSubscribe subject x) = Inl err \<longrightarrow>
      sub econn subject x w
        = w\<lparr>calls := calls w @ [PlainSubscribe subject x], logged := logged w @ [err]\<rparr>"
    by (simp add: sub_def)
  show "subscribe_result econn (calls w) (QueueSubscribe subject queueName x) = Inl err \<longrightarrow>
      qsub econn queueName subject x w
        = w\<lparr>calls := calls w @ [QueueSubscribe subject queueName x],
             logged := logged w @ [err]\<rparr>"
    by (simp add: qsub_def)
  obtain ds where ds: "getMessages ul (Some svc) = Inr ds"
    using getMessages_total by blast
  show "\<exists>ds w'. getMessages ul (Some svc) = Inr ds \<and> Subscribe ul econn (Some svc) w = Inr w'
         \<and> calls w' = calls w @ map registration ds
         \<and> logged w' = logged w @ refused (outcomes econn (calls w) (map registration ds))
         \<and> watchers w' = watchers w @ granted (outcomes econn (calls w) (map registration ds))
         \<and> cancelled w' = cancelled w \<and> unsubscribed w' = unsubscribed w"
    using ds attempts_effect [of econn w "map registration ds"]
    by (simp add: Subscribe_def Subscribe_loop_attempts)
qed


text \<open>
  A connection that refuses the first call: the first descriptor of
  \<open>*subly.someService\<close> is logged, the second is registered.
\<close>

theorem subscribe_failure_is_local_witness:
  "subscribe_result \<lparr>subscribe_result = (\<lambda>h c. if h = [] then Inl ''refused''
                                                 else (Inr (length h) :: string + nat)),
                      unsubscribe_result = (\<lambda>u h. None)\<rparr>
       (calls initial_world) (PlainSubscribe ''s'' (7::nat)) = Inl ''refused''
   \<and> sub \<lparr>subscribe_result = (\<lambda>h c. if h = [] then Inl ''refused''
                                       else (Inr (length h) :: string + nat)),
            unsubscribe_result = (\<lambda>u h. None)\<rparr> ''s'' (7::nat) initial_world
       = \<lparr>calls = [PlainSubscribe ''s'' 7], logged = [''refused''], watchers = [],
          cancelled = False, unsubscribed = []\<rparr>
   \<and> (\<exists>w'. Subscribe id \<lparr>subscribe_result = (\<lambda>h c. if h = [] then Inl ''refused''
                                                     else (Inr (length h) :: string + nat)),
                          unsubscribe_result = (\<lambda>u h. None)\<rparr>
              (Some \<lparr>typeString = ''*subly.someService'',
                     methods = [(''RepActionMessageQueue'', 7::nat), (''SubActionMessage'', 8)]\<rparr>)
              initial_world = Inr w'
          \<and> calls w' = [QueueSubscribe ''someservice.repaction'' ''someservice_repaction'' 7,
                         PlainSubscribe ''someservice.subaction'' 8]
          \<and> logged w' = [''refused''] \<and> watchers w' = [1])"
proof -
  let ?svc = "\<lparr>typeString = ''*subly.someService'',
        methods = [(''RepActionMessageQueue'', 7::nat), (''SubActionMessage'', 8)]\<rparr>"
  let ?econn = "\<lparr>subscribe_result = (\<lambda>h c. if h = [] then Inl ''refused''
                                                 else (Inr (length h) :: string + nat)),
                      unsubscribe_result = (\<lambda>u h. None)\<rparr>"
  have g: "getMessages id (Some ?svc)
      = Inr [\<lparr>queue = True, serviceName = ''someservice'', messageName = ''repaction'',
               message = 7\<rparr>,
             \<lparr>queue = False, serviceName = ''someservice'', messageName = ''subaction'',
               message = 8\<rparr>]"
    by code_simp
  show ?thesis
    using subscribe_failure_is_local [where ul = id and svc = ?svc and w = initial_world
        and econn = ?econn and subject = "''s''" and x = 7 and err = "''refused''"
        and queueName = "''q''"] g
    by (auto simp: registration_def initial_world_def)
qed

section \<open>Properties of the cancellation\<close>

lemma attempt_accounted:
  assumes "mset (unsubscribed w) + mset (watchers w) = mset (granted (outcomes econn [] (calls w)))"
  shows "mset (unsubscribed (attempt econn c w)) + mset (watchers (attempt econn c w))
           = mset (granted (outcomes econn [] (calls (attempt econn c w))))"
  using assms by (simp add: attempt_fields outcomes_snoc granted_append)

lemma fire_Some:
  assumes "fire econn i w = Some w'"
  shows "cancelled w" and "i < length (watchers w)" and "calls w' = calls w"
    and "cancelled w' = cancelled w"
    and "watchers w' = take i (watchers w) @ drop (Suc i) (watchers w)"
    and "unsubscribed w' = unsubscribed w @ [watchers w ! i]"
  using assms by (auto simp: fire_def Let_def split: if_splits)

lemma mset_remove_nth:
  "i < length ws \<Longrightarrow> mset (take i ws @ drop (Suc i) ws) + {#ws ! i#} = mset ws"
proof -
  assume "i < length ws"
  then have "ws = take i ws @ ws ! i # drop (Suc i) ws" by (rule id_take_nth_drop)
  then have "mset ws = mset (take i ws @ ws ! i # drop (Suc i) ws)" by simp
  then show ?thesis by simp
qed

lemma fire_accounted:
  assumes "fire econn i w = Some w'"
  shows "mset (unsubscribed w') + mset (watchers w') = mset (unsubscribed w) + mset (watchers w)"
    and "length (watchers w) = Suc (length (watchers w'))"
proof -
  note f = fire_Some [OF assms]
  show "mset (unsubscribed w') + mset (watchers w') = mset (unsubscribed w) + mset (watchers w)"
    using mset_remove_nth [OF f(2)] by (simp add: f(5,6) add.commute add.left_commute)
  show "length (watchers w) = Suc (length (watchers w'))"
    using f(2) by (simp add: f(5))
qed

lemma step_accounted:
  assumes "step econn ev w = Some w'"
    and "mset (unsubscribed w) + mset (watchers w) = mset (granted (outcomes econn [] (calls w)))"
  shows "mset (unsubscribed w') + mset (watchers w') = mset (granted (outcomes econn [] (calls w')))"
proof (cases ev)
  case (CallSub subject x)
  with assms show ?thesis by (auto simp: sub_attempt intro: attempt_accounted)
next
  case (CallQsub queueName subject x)
  with assms show ?thesis by (auto simp: qsub_attempt intro: attempt_accounted)
next
  case Cancel
  with assms show ?thesis by auto
next
  case (Fire i)
  with assms(1) have f: "fire econn i w = Some w'" by simp
  show ?thesis using fire_accounted(1) [OF f] fire_Some(3) [OF f] assms(2) by simp
qed

lemma step_quiet:
  assumes "step econn ev w = Some w'" and "\<not> cancelled w \<longrightarrow> unsubscribed w = []"
  shows "\<not> cancelled w' \<longrightarrow> unsubscribed w' = []"
proof (cases ev)
  case (CallSub subject x)
  with assms show ?thesis by (auto simp: sub_attempt attempt_fields)
next
  case (CallQsub queueName subject x)
  with assms show ?thesis by (auto simp: qsub_attempt attempt_fields)
next
  case Cancel
  with assms show ?thesis by auto
next
  case (Fire i)
  with assms(1) have f: "fire econn i w = Some w'" by simp
  show ?thesis using fire_Some(1,4) [OF f] by simp
qed

lemma run_accounted:
  "run econn evs w = Some w'
   \<Longrightarrow> mset (unsubscribed w) + mset (watchers w) = mset (granted (outcomes econn [] (calls w)))
   \<Longrightarrow> mset (unsubscribed w') + mset (watchers w') = mset (granted (outcomes econn [] (calls w')))"
proof (induction evs arbitrary: w)
  case Nil
  then show ?case by simp
next
  case (Cons ev evs)
  then obtain w1 where s: "step econn ev w = Some w1" and r: "run econn evs w1 = Some w'"
    by (auto split: option.splits)
  show ?case using Cons.IH [OF r step_accounted [OF s Cons.prems(2)]] .
qed

lemma run_quiet:
  "run econn evs w = Some w' \<Longrightarrow> (\<not> cancelled w \<longrightarrow> unsubscribed w = [])
   \<Longrightarrow> (\<not> cancelled w' \<longrightarrow> unsubscribed w' = [])"
proof (induction evs arbitrary: w)
  case Nil
  then show ?case by simp
next
  case (Cons ev evs)
  then obtain w1 where s: "step econn ev w = Some w1" and r: "run econn evs w1 = Some w'"
    by (auto split: option.splits)
  show ?case using Cons.IH [OF r step_quiet [OF s Cons.prems(2)]] .
qed

lemma run_fires:
  "run econn (map Fire sched) w = Some w'
   \<Longrightarrow> length sched + length (watchers w') = length (watchers w) \<and> calls w' = calls w
      \<and> mset (unsubscribed w') + mset (watchers w') = mset (unsubscribed w) + mset (watchers w)"
proof (induction sched arbitrary: w)
  case Nil
  then show ?case by simp
next
  case (Cons i sched)
  then obtain w1 where f: "fire econn i w = Some w1"
    and r: "run econn (map Fire sched) w1 = Some w'"
    by (auto split: option.splits)
  show ?case
    using Cons.IH [OF r] fire_accounted [OF f] fire_Some(3) [OF f] by simp
qed

text \<open>
  Claim C9. In every state reached from the initial one by registrations,
  cancellation and goroutine steps in any order: each subscription granted so far
  is either still held by its waiting goroutine or has had \<open>Unsubscribe\<close> called on
  it, never both and never twice; nothing is unsubscribed before the cancellation;
  after it every waiting goroutine can take its step; and any sequence of goroutine
  steps retires one waiting goroutine per step, so it is no longer than their number,
  and once none is waiting the \<open>Unsubscribe\<close> calls made are exactly the \<open>N\<close>
  subscriptions granted. "Eventually" is read as: in every run in which each
  goroutine that can take its step does take it.
\<close>

theorem cancellation_unsubscribes_each_once:
  assumes "run econn evs initial_world = Some w"
  shows "mset (unsubscribed w) + mset (watchers w) = mset (granted (outcomes econn [] (calls w)))
    \<and> (\<not> cancelled w \<longrightarrow> unsubscribed w = [])
    \<and> (cancelled w \<longrightarrow> (\<forall>i<length (watchers w). fire econn i w \<noteq> None))
    \<and> (\<forall>sched w'. run econn (map Fire sched) w = Some w' \<longrightarrow>
          length sched + length (watchers w') = length (watchers w)
          \<and> (watchers w' = [] \<longrightarrow>
                mset (unsubscribed w') = mset (granted (outcomes econn [] (calls w)))
                \<and> length (unsubscribed w') = length (granted (outcomes econn [] (calls w)))))"
proof (intro conjI allI impI)
  show acc: "mset (unsubscribed w) + mset (watchers w)
      = mset (granted (outcomes econn [] (calls w)))"
    using run_accounted [OF assms] by (simp add: initial_world_def)
  show "unsubscribed w = []" if "\<not> cancelled w"
    using run_quiet [OF assms] that by (simp add: initial_world_def)
  show "fire econn i w \<noteq> None" if "cancelled w" and "i < length (watchers w)" for i
    using that by (simp add: fire_def Let_def)
  fix sched w'
  assume r: "run econn (map Fire sched) w = Some w'"
  show "length sched + length (watchers w') = length (watchers w)"
    using run_fires [OF r] by simp
  assume fin: "watchers w' = []"
  show m: "mset (unsubscribed w') = mset (granted (outcomes econn [] (calls w)))"
    using run_fires [OF r] acc fin by simp
  show "length (unsubscribed w') = length (granted (outcomes econn [] (calls w)))"
    using m by (metis size_mset)
qed


text \<open>
  Three registrations of which the second is refused, the cancellation, and the two
  goroutines in the order second, first.
\<close>

theorem cancellation_unsubscribes_each_once_witness:
  "run \<lparr>subscribe_result = (\<lambda>h c. if length h = 1 then Inl ''refused''
                                    else (Inr (length h) :: string + nat)),
         unsubscribe_result = (\<lambda>u h. None)\<rparr>
     [CallSub ''a'' (7::nat), CallQsub ''q'' ''b'' 8, CallSub ''c'' 9, Cancel, Fire 1]
     initial_world
   = Some \<lparr>calls = [PlainSubscribe ''a'' 7, QueueSubscribe ''b'' ''q'' 8, PlainSubscribe ''c'' 9],
           logged = [''refused''], watchers = [0], cancelled = True, unsubscribed = [2]\<rparr>
   \<and> run \<lparr>subscribe_result = (\<lambda>h c. if length h = 1 then Inl ''refused''
                                    else (Inr (length h) :: string + nat)),
           unsubscribe_result = (\<lambda>u h. None)\<rparr>
       (map Fire [0])
       \<lparr>calls = [PlainSubscribe ''a'' (7::nat), QueueSubscribe ''b'' ''q'' 8,
                 PlainSubscribe ''c'' 9],
        logged = [''refused''], watchers = [0], cancelled = True, unsubscribed = [2]\<rparr>
     = Some \<lparr>calls = [PlainSubscribe ''a'' 7, QueueSubscribe ''b'' ''q'' 8,
                      PlainSubscribe ''c'' 9],
             logged = [''refused''], watchers = [], cancelled = True, unsubscribed = [2, 0]\<rparr>
   \<and> mset [2, 0 :: nat]
       = mset (granted (outcomes \<lparr>subscribe_result = (\<lambda>h c. if length h = 1 then Inl ''refused''
                                    else (Inr (length h) :: string + nat)),
                                  unsubscribe_result = (\<lambda>u h. None)\<rparr> []
                 [PlainSubscribe ''a'' (7::nat), QueueSubscribe ''b'' ''q'' 8,
                  PlainSubscribe ''c'' 9]))
   \<and> length (granted (outcomes \<lparr>subscribe_result = (\<lambda>h c. if length h = 1 then Inl ''refused''
                                    else (Inr (length h) :: string + nat)),
                                  unsubscribe_result = (\<lambda>u h. None)\<rparr> []
                 [PlainSubscribe ''a'' (7::nat), QueueSubscribe ''b'' ''q'' 8,
                  PlainSubscribe ''c'' 9])) = 2"
proof -
  let ?econn = "\<lparr>subscribe_result = (\<lambda>h c. if length h = 1 then Inl ''refused''
                                    else (Inr (length h) :: string + nat)),
         unsubscribe_result = (\<lambda>u h. None)\<rparr>"
  let ?cs = "[PlainSubscribe ''a'' (7::nat), QueueSubscribe ''b'' ''q'' 8, PlainSubscribe ''c'' 9]"
  let ?w = "\<lparr>calls = ?cs, logged = [''refused''], watchers = [0::nat], cancelled = True,
             unsubscribed = [2::nat]\<rparr>"
  let ?w' = "\<lparr>calls = ?cs, logged = [''refused''], watchers = [] :: nat list, cancelled = True,
             unsubscribed = [2, 0::nat]\<rparr>"
  have r: "run ?econn [CallSub ''a'' (7::nat), CallQsub ''q'' ''b'' 8, CallSub ''c'' 9, Cancel, Fire 1]
      initial_world = Some ?w"
    by (simp add: sub_def qsub_def fire_def initial_world_def)
  have r': "run ?econn (map Fire [0]) ?w = Some ?w'"
    by (simp add: fire_def)
  note t = cancellation_unsubscribes_each_once [OF r]
  from t have "\<forall>sched w'. run ?econn (map Fire sched) ?w = Some w' \<longrightarrow>
          length sched + length (watchers w') = length (watchers ?w)
          \<and> (watchers w' = [] \<longrightarrow>
                mset (unsubscribed w') = mset (granted (outcomes ?econn [] (calls ?w)))
                \<and> length (unsubscribed w') = length (granted (outcomes ?econn [] (calls ?w))))"
    by blast
  from this [rule_format, OF r'] have
    "mset (unsubscribed ?w') = mset (granted (outcomes ?econn [] (calls ?w)))"
    "length (unsubscribed ?w') = length (granted (outcomes ?econn [] (calls ?w)))"
    by simp_all
  then have "mset [2, 0 :: nat] = mset (granted (outcomes ?econn [] ?cs))"
    and "length (granted (outcomes ?econn [] ?cs)) = 2"
    by (simp_all only: world.simps list.size One_nat_def add_Suc_right add_0_right
        numeral_2_eq_2)
  with r r' show ?thesis by blast
qed

end
